theory Spec2Isabelle
  imports Complex_Main "HOL-Library.Sublist" "HOL-Library.Multiset"
begin

section \<open>Strings and characters\<close>

text \<open>
  A JavaScript string is a sequence of code units. It is modelled as a \<^typ>\<open>string\<close>,
  each \<^typ>\<open>char\<close> standing for the code unit of the same value, so the model covers the
  documents whose code units lie in U+0000..U+00FF. \<open>length\<close> is the \<open>.length\<close> of
  the source.
\<close>

definition codeUnit :: "char \<Rightarrow> nat" where
  "codeUnit c = of_char c"

text \<open>
  The white space of \<open>\s\<close> and of \<open>String.prototype.trim\<close> (WhiteSpace and
  LineTerminator): TAB, LF, VT, FF, CR, SP and NBSP are the ones below U+0100.
\<close>

definition isSpace :: "char \<Rightarrow> bool" where
  "isSpace c = (codeUnit c \<in> {9, 10, 11, 12, 13, 32, 160})"

text \<open>The class \<open>[.!?]\<close> of the look-behind of the sentence boundary.\<close>

definition isTerminal :: "char \<Rightarrow> bool" where
  "isTerminal c = (c = CHR ''.'' \<or> c = CHR ''!'' \<or> c = CHR ''?'')"

text \<open>The class \<open>[A-Z0-9"'()]\<close> of the look-ahead of the sentence boundary.\<close>

definition isOpener :: "char \<Rightarrow> bool" where
  "isOpener c =
     ((65 \<le> codeUnit c \<and> codeUnit c \<le> 90) \<or> (48 \<le> codeUnit c \<and> codeUnit c \<le> 57)
      \<or> codeUnit c = 34 \<or> codeUnit c = 39 \<or> codeUnit c = 40 \<or> codeUnit c = 41)"

text \<open>
  \<open>String.prototype.toLowerCase\<close> on one code unit: the letters A-Z, and the letters
  U+00C0..U+00DE except the multiplication sign U+00D7, move up by 32.
\<close>

definition lowerChar :: "char \<Rightarrow> char" where
  "lowerChar c =
     (if (65 \<le> codeUnit c \<and> codeUnit c \<le> 90)
         \<or> (192 \<le> codeUnit c \<and> codeUnit c \<le> 222 \<and> codeUnit c \<noteq> 215)
      then char_of (codeUnit c + 32) else c)"

definition toLowerCase :: "string \<Rightarrow> string" where
  "toLowerCase s = map lowerChar s"

text \<open>
  The Canonicalize of a regular expression with the \<open>i\<close> flag (and no \<open>u\<close> flag): a
  code unit is compared through its upper-case form. The letters a-z, and the letters
  U+00E0..U+00FE except the division sign U+00F7, move down by 32. The upper-case forms of
  U+00B5 and U+00FF lie above U+00FF and are shared with no code unit below U+0100, and that
  of U+00DF is two code units long, so these three stand for themselves.
\<close>

definition canonicalize :: "char \<Rightarrow> char" where
  "canonicalize c =
     (if (97 \<le> codeUnit c \<and> codeUnit c \<le> 122)
         \<or> (224 \<le> codeUnit c \<and> codeUnit c \<le> 254 \<and> codeUnit c \<noteq> 247)
      then char_of (codeUnit c - 32) else c)"

text \<open>\<open>String.prototype.trim\<close>: white space is removed from both ends.\<close>

definition trim :: "string \<Rightarrow> string" where
  "trim s = rev (dropWhile isSpace (rev (dropWhile isSpace s)))"

text \<open>\<open>String.prototype.includes\<close>: \<open>k\<close> occurs in \<open>s\<close> as a contiguous run.\<close>

fun str_includes :: "string \<Rightarrow> string \<Rightarrow> bool" where
  "str_includes [] k = (k = [])"
| "str_includes (c # cs) k = (prefix k (c # cs) \<or> str_includes cs k)"

text \<open>\<open>Array.prototype.join\<close> on strings.\<close>

fun join :: "string \<Rightarrow> string list \<Rightarrow> string" where
  "join sep [] = []"
| "join sep [x] = x"
| "join sep (x # y # ys) = x @ sep @ join sep (y # ys)"

text \<open>
  \<open>Array.prototype.slice(0, end)\<close>: a negative \<open>end\<close> counts from the end of the
  array.
\<close>

definition slice0 :: "int \<Rightarrow> 'a list \<Rightarrow> 'a list" where
  "slice0 e xs = (if e < 0 then take (nat (int (length xs) + e)) xs else take (nat e) xs)"

section \<open>Regular expressions\<close>

text \<open>
  The fragment of regular expressions that the source uses: a literal compared under the
  \<open>i\<close> flag, the greedy \<open>\s+\<close>, sequence, alternation (left first), the greedy
  \<open>?\<close>, and the two assertions of the sentence boundary. Groups only capture; they do
  not change what is matched.
\<close>

datatype cclass = Space | Terminal | Opener

fun inClass :: "cclass \<Rightarrow> char \<Rightarrow> bool" where
  "inClass Space c = isSpace c"
| "inClass Terminal c = isTerminal c"
| "inClass Opener c = isOpener c"

datatype regex =
    LitI string
  | Plus cclass
  | Seq regex regex
  | Alt regex regex
  | Opt regex
  | Behind cclass
  | Ahead cclass

text \<open>
  The code units of a literal are matched one after the other against the input, each
  through its canonical form.
\<close>

fun litMatches :: "string \<Rightarrow> string \<Rightarrow> bool" where
  "litMatches [] s = True"
| "litMatches (p # ps) [] = False"
| "litMatches (p # ps) (c # cs) =
     (if canonicalize c = canonicalize p then litMatches ps cs else False)"

text \<open>The code unit before the position reached after \<open>n\<close> more code units.\<close>

definition prevAfter :: "char option \<Rightarrow> nat \<Rightarrow> string \<Rightarrow> char option" where
  "prevAfter prev n s = (if n = 0 \<or> length s < n then prev else Some (s ! (n - 1)))"

text \<open>
  \<open>ms r prev s\<close> lists the lengths of the matches of \<open>r\<close> that start at the head of
  \<open>s\<close>, \<open>prev\<close> being the code unit before it, in the order in which a backtracking
  matcher finds them. The match of the source is the first one.
\<close>

fun ms :: "regex \<Rightarrow> char option \<Rightarrow> string \<Rightarrow> nat list" where
  "ms (LitI p) prev s = (if litMatches p s then [length p] else [])"
| "ms (Plus k) prev s = rev [1 ..< Suc (length (takeWhile (inClass k) s))]"
| "ms (Seq a b) prev s =
     concat (map (\<lambda>n. map (\<lambda>m. n + m) (ms b (prevAfter prev n s) (drop n s))) (ms a prev s))"
| "ms (Alt a b) prev s = ms a prev s @ ms b prev s"
| "ms (Opt a) prev s = ms a prev s @ [0]"
| "ms (Behind k) prev s = (case prev of None \<Rightarrow> [] | Some c \<Rightarrow> if inClass k c then [0] else [])"
| "ms (Ahead k) prev s = (case s of [] \<Rightarrow> [] | c # _ \<Rightarrow> if inClass k c then [0] else [])"

text \<open>
  \<open>RegExp.prototype.exec\<close> without the \<open>g\<close> flag: the first position with a match,
  as the text before the match, the matched text and the text after it.
\<close>

fun reExecFrom :: "regex \<Rightarrow> char option \<Rightarrow> string \<Rightarrow> (string \<times> string \<times> string) option" where
  "reExecFrom r prev [] =
     (case ms r prev [] of [] \<Rightarrow> None | n # _ \<Rightarrow> Some ([], [], []))"
| "reExecFrom r prev (c # cs) =
     (case ms r prev (c # cs) of
        n # _ \<Rightarrow> Some ([], take n (c # cs), drop n (c # cs))
      | [] \<Rightarrow> (case reExecFrom r (Some c) cs of
                 None \<Rightarrow> None
               | Some (pre, m, post) \<Rightarrow> Some (c # pre, m, post)))"

definition reExec :: "regex \<Rightarrow> string \<Rightarrow> (string \<times> string \<times> string) option" where
  "reExec r s = reExecFrom r None s"

text \<open>\<open>RegExp.prototype.test\<close>.\<close>

definition reTest :: "regex \<Rightarrow> string \<Rightarrow> bool" where
  "reTest r s = (reExec r s \<noteq> None)"

text \<open>
  \<open>String.prototype.replace\<close> with a regular expression without the \<open>g\<close> flag and a
  replacement function: the first match is replaced by what the function returns for it.
\<close>

definition replaceFn :: "regex \<Rightarrow> (string \<Rightarrow> string) \<Rightarrow> string \<Rightarrow> string" where
  "replaceFn r f s =
     (case reExec r s of None \<Rightarrow> s | Some (pre, m, post) \<Rightarrow> pre @ f m @ post)"

text \<open>
  \<open>String.prototype.split\<close> with a regular expression without groups. The loop of
  the language definition runs over the positions \<open>q\<close> of the string: \<open>acc\<close> holds, reversed,
  the code units from the end \<open>p\<close> of the last separator up to \<open>q\<close>. A match at \<open>q\<close>
  ending at \<open>e = p\<close> (an empty match right after a separator) is skipped; any other match
  closes the piece and moves \<open>p\<close> and \<open>q\<close> to \<open>e\<close>. No match is tried at the end of the
  string, where the last piece is closed.
\<close>

function splitLoop :: "regex \<Rightarrow> char option \<Rightarrow> string \<Rightarrow> string \<Rightarrow> string list" where
  "splitLoop r prev acc [] = [rev acc]"
| "splitLoop r prev acc (c # cs) =
     (case ms r prev (c # cs) of
        [] \<Rightarrow> splitLoop r (Some c) (c # acc) cs
      | n # _ \<Rightarrow>
          if n = 0 then
            (if acc = [] then splitLoop r (Some c) [c] cs
             else rev acc # splitLoop r (Some c) [c] cs)
          else rev acc # splitLoop r (prevAfter prev n (c # cs)) [] (drop n (c # cs)))"
  by pat_completeness auto
termination
  by (relation "measure (\<lambda>(r, prev, acc, s). length s)") auto

definition split :: "regex \<Rightarrow> string \<Rightarrow> string list" where
  "split r s = (if s = [] then (if ms r None [] = [] then [[]] else []) else splitLoop r None [] s)"

section \<open>The program\<close>

subsection \<open>\<open>splitSentences\<close>\<close>

text \<open>The regular expression \<open>/(?<=[.!?])\s+(?=[A-Z0-9"'()])/\<close>.\<close>

definition sentenceBoundary :: regex where
  "sentenceBoundary = Seq (Behind Terminal) (Seq (Plus Space) (Ahead Opener))"

text \<open>\<open>.replace(/\n/g, " ")\<close>: every line feed becomes a space.\<close>

definition replaceNewlines :: "string \<Rightarrow> string" where
  "replaceNewlines s = map (\<lambda>c. if c = CHR 0x0A then CHR '' '' else c) s"

text \<open>\<open>.filter(Boolean)\<close> keeps the strings that are not empty.\<close>

definition splitSentences :: "string \<Rightarrow> string list" where
  "splitSentences text =
     filter (\<lambda>s. s \<noteq> []) (map trim (split sentenceBoundary (replaceNewlines text)))"

subsection \<open>\<open>LEGAL_MAP\<close>\<close>

definition LEGAL_MAP :: "(regex \<times> string) list" where
  "LEGAL_MAP =
    [(Seq (LitI ''force'') (Seq (Plus Space) (LitI ''majeure'')),
        ''unavoidable events (e.g., natural disaster)''),
     (Seq (LitI ''indemnif'') (Alt (LitI ''y'') (Alt (LitI ''ies'') (LitI ''ication''))),
        ''compensation if someone sues you''),
     (LitI ''waiver'', ''giving up a right intentionally''),
     (Seq (LitI ''jurisdicti'') (Alt (LitI ''on'') (LitI ''onal'')),
        ''which court'' @ [CHR 0x27] @ ''s rules apply''),
     (LitI ''notwithstanding'', ''despite the above''),
     (Seq (LitI ''liabilit'') (Alt (LitI ''y'') (LitI ''ies'')),
        ''legal responsibility for harm''),
     (Seq (LitI ''confidential'') (Opt (LitI ''ity'')), ''kept private''),
     (LitI ''termination'', ''ending the agreement'')]"

subsection \<open>\<open>heuristicsSummary\<close>\<close>

text \<open>
  The entries \<open>{ sent, score, idx }\<close> of \<open>scored\<close>. The score is a JavaScript number;
  the model computes it exactly, as a rational.
\<close>

record scoredSentence =
  sent :: string
  score :: rat
  idx :: nat

definition keywordList :: "string list" where
  "keywordList =
    [''obligation'', ''shall'', ''must'', ''liability'', ''termination'',
     ''confidential'', ''indemnify'', ''warranty'', ''payment'', ''fee'',
     ''notice'', ''force majeure'', ''dispute'', ''governing law'', ''breach'']"

text \<open>The callback of \<open>sents.map\<close>; \<open>n\<close> is \<open>sents.length\<close>.\<close>

definition scoreSentence :: "nat \<Rightarrow> nat \<times> string \<Rightarrow> scoredSentence" where
  "scoreSentence n = (\<lambda>(i, snt).
     let l = toLowerCase snt;
         sc = fold (\<lambda>k sc. if str_includes l k then sc + 3 else sc) keywordList 0;
         sc = (if length snt > 120 then sc + 1 else sc);
         sc = (if length snt > 250 then sc + 1 else sc);
         sc = sc + max 0 (1 - of_nat i / of_nat (max 1 n))
     in \<lparr>sent = snt, score = sc, idx = i\<rparr>)"

text \<open>
  \<open>Array.prototype.sort\<close> with a comparison function. The sort of the language is
  stable; the model is the stable insertion sort, which puts \<open>x\<close> before the first
  \<open>y\<close> that the comparison does not put before \<open>x\<close>.
\<close>

fun insertBy :: "('a \<Rightarrow> 'a \<Rightarrow> rat) \<Rightarrow> 'a \<Rightarrow> 'a list \<Rightarrow> 'a list" where
  "insertBy cmp x [] = [x]"
| "insertBy cmp x (y # ys) = (if cmp x y \<le> 0 then x # y # ys else y # insertBy cmp x ys)"

definition sortBy :: "('a \<Rightarrow> 'a \<Rightarrow> rat) \<Rightarrow> 'a list \<Rightarrow> 'a list" where
  "sortBy cmp xs = foldr (insertBy cmp) xs []"

text \<open>
  The callback of \<open>LEGAL_MAP.forEach\<close>, as a function of the rule and of the current
  value of \<open>plain\<close>.
\<close>

definition applyRule :: "regex \<times> string \<Rightarrow> string \<Rightarrow> string" where
  "applyRule = (\<lambda>(re, replacement) plain.
     replaceFn re (\<lambda>match. match @ '' ('' @ replacement @ '')'') plain)"

text \<open>The callback of \<open>top.map\<close>: the rules of \<open>LEGAL_MAP\<close>, one after the other.\<close>

definition annotate :: "string \<Rightarrow> string" where
  "annotate snt = fold applyRule LEGAL_MAP snt"

definition heuristicsSummary :: "string \<Rightarrow> int \<Rightarrow> string list" where
  "heuristicsSummary text maxPoints =
     (let sents = splitSentences text in
      if length sents = 0 then []
      else
        let scored = map (scoreSentence (length sents)) (enumerate 0 sents);
            scored = sortBy (\<lambda>a b. score b - score a) scored;
            top = slice0 (min maxPoints (int (length scored))) scored
        in map (\<lambda>x. annotate (sent x)) top)"

subsection \<open>\<open>simpleChatAnswer\<close>\<close>

text \<open>\<open>a || b\<close> on strings: the empty string is the only one that is not truthy.\<close>

definition orElse :: "string \<Rightarrow> string \<Rightarrow> string" where
  "orElse a b = (if a = [] then b else a)"

definition simpleChatAnswer :: "string \<Rightarrow> string \<Rightarrow> string list \<Rightarrow> string" where
  "simpleChatAnswer question original summary =
     (let q = toLowerCase question in
      if trim q = [] then ''Please ask a question about the uploaded document.''
      else if str_includes q ''terminate'' then
        (let s = filter (reTest (LitI ''terminate'')) (splitSentences original)
         in orElse (join '' '' (slice0 3 s)) ''No explicit termination clause found.'')
      else if str_includes q ''payment'' \<or> str_includes q ''fee'' then
        (let s = filter (reTest (Alt (LitI ''payment'') (Alt (LitI ''fee'') (LitI ''price''))))
                        (splitSentences original)
         in orElse (join '' '' (slice0 3 s)) ''No payment clause found.'')
      else if length summary > 0 then join '' '' (slice0 2 summary)
      else ''No relevant answer found.'')"

subsection \<open>\<open>risks\<close>\<close>

definition riskKeywords :: "string list" where
  "riskKeywords = [''indemnify'', ''liability'', ''penalt'', ''breach'', ''terminate'', ''obligation'']"

definition risks :: "string \<Rightarrow> string list" where
  "risks text =
     slice0 6 (filter (\<lambda>s. list_ex (\<lambda>k. str_includes (toLowerCase s) k) riskKeywords)
                      (splitSentences text))"

section \<open>Notions used in the statements\<close>

text \<open>A string with its white space removed.\<close>

definition stripSpaces :: "string \<Rightarrow> string" where
  "stripSpaces s = filter (\<lambda>c. \<not> isSpace c) s"

text \<open>
  Two code units are the same letter up to case: they are equal, or one is a capital letter
  (A-Z, or U+00C0..U+00DE without the multiplication sign U+00D7) and the other is the
  small letter that goes with it, 32 code units above.
\<close>

definition isCapital :: "char \<Rightarrow> bool" where
  "isCapital c =
     ((65 \<le> codeUnit c \<and> codeUnit c \<le> 90)
      \<or> (192 \<le> codeUnit c \<and> codeUnit c \<le> 222 \<and> codeUnit c \<noteq> 215))"

definition sameLetter :: "char \<Rightarrow> char \<Rightarrow> bool" where
  "sameLetter a b =
     (a = b \<or> (isCapital a \<and> codeUnit b = codeUnit a + 32)
            \<or> (isCapital b \<and> codeUnit a = codeUnit b + 32))"

text \<open>
  \<open>k\<close> occurs in \<open>s\<close> as a case-insensitive substring: at some position of \<open>s\<close>, the
  code units of \<open>k\<close> are found one after the other, each up to case.
\<close>

fun ciPrefix :: "string \<Rightarrow> string \<Rightarrow> bool" where
  "ciPrefix [] s = True"
| "ciPrefix (k # ks) [] = False"
| "ciPrefix (k # ks) (c # cs) = (sameLetter k c \<and> ciPrefix ks cs)"

fun ciSubstring :: "string \<Rightarrow> string \<Rightarrow> bool" where
  "ciSubstring k [] = (k = [])"
| "ciSubstring k (c # cs) = (ciPrefix k (c # cs) \<or> ciSubstring k cs)"

text \<open>
  The score as the specification words it: three times the number of distinct keywords
  that occur in the sentence as case-insensitive substrings, one more above 120 code
  units, one more above 250, and the bonus of the position \<open>i\<close> among \<open>n\<close> sentences.
\<close>

definition specScore :: "nat \<Rightarrow> nat \<Rightarrow> string \<Rightarrow> rat" where
  "specScore n i s =
     3 * of_nat (length (filter (\<lambda>k. ciSubstring k s) (remdups keywordList)))
     + (if length s > 120 then 1 else 0)
     + (if length s > 250 then 1 else 0)
     + max 0 (1 - of_nat i / of_nat (max 1 n))"





text \<open>
  A regular expression without assertions; and the code units that some literal or class
  of a regular expression can consume.
\<close>

fun plain :: "regex \<Rightarrow> bool" where
  "plain (LitI p) = True"
| "plain (Plus k) = True"
| "plain (Seq a b) = (plain a \<and> plain b)"
| "plain (Alt a b) = (plain a \<and> plain b)"
| "plain (Opt a) = plain a"
| "plain (Behind k) = False"
| "plain (Ahead k) = False"


text \<open>
  The messages that \<open>simpleChatAnswer\<close> falls back to when it finds nothing to quote.
\<close>

definition fallbackMessages :: "string list" where
  "fallbackMessages =
     [''No explicit termination clause found.'', ''No payment clause found.'',
      ''No relevant answer found.'']"

section \<open>Facts about the helpers\<close>

lemma length_insertBy: "length (insertBy cmp x xs) = Suc (length xs)"
  by (induction xs) auto

lemma length_sortBy: "length (sortBy cmp xs) = length xs"
  by (induction xs) (auto simp: sortBy_def length_insertBy)

lemma length_slice0: "0 \<le> e \<Longrightarrow> length (slice0 e xs) = min (nat e) (length xs)"
  by (simp add: slice0_def)

lemma splitSentences_example:
  "splitSentences ''A shall indemnify B. This is short.'' =
     [''A shall indemnify B.'', ''This is short.'']"
  by code_simp

subsection \<open>The sentence splitter\<close>

lemma inClass_Space: "inClass Space = isSpace"
  by (rule ext) simp

lemma ms_sentenceBoundary:
  "n \<in> set (ms sentenceBoundary prev s) \<Longrightarrow> 0 < n \<and> n \<le> length (takeWhile isSpace s)"
  by (auto simp: sentenceBoundary_def inClass_Space split: option.splits if_splits list.splits)

lemma ms_sentenceBoundary_Nil: "ms sentenceBoundary prev [] = []"
  by (simp add: sentenceBoundary_def split: option.splits)

lemma splitLoop_set:
  "p \<in> set (splitLoop r prev acc s) \<Longrightarrow> set p \<subseteq> set acc \<union> set s"
proof (induction r prev acc s arbitrary: p rule: splitLoop.induct)
  case (1 r prev acc)
  then show ?case by simp
next
  case (2 r prev acc c cs)
  show ?case
  proof (cases "ms r prev (c # cs)")
    case Nil
    with 2 show ?thesis by fastforce
  next
    case (Cons n ns)
    show ?thesis
    proof (cases "n = 0")
      case True
      with 2 Cons show ?thesis by (fastforce split: if_splits)
    next
      case False
      with "2.prems" Cons have "p = rev acc \<or> p \<in> set (splitLoop r (prevAfter prev n (c # cs)) [] (drop n (c # cs)))"
        by simp
      then show ?thesis
      proof
        assume "p = rev acc" then show ?thesis by auto
      next
        assume "p \<in> set (splitLoop r (prevAfter prev n (c # cs)) [] (drop n (c # cs)))"
        from "2.IH"(4)[OF Cons False this] have "set p \<subseteq> set (drop n (c # cs))" by simp
        moreover have "set (drop n (c # cs)) \<subseteq> set (c # cs)" by (rule set_drop_subset)
        ultimately show ?thesis by blast
      qed
    qed
  qed
qed

lemma split_set: "p \<in> set (split r s) \<Longrightarrow> set p \<subseteq> set s"
  using splitLoop_set [of p r None "[]" s]
  by (auto simp: split_def split: if_splits)

lemma set_trim: "set (trim s) \<subseteq> set s"
proof -
  have "set (trim s) \<subseteq> set (dropWhile isSpace s)"
    unfolding trim_def using set_dropWhileD by fastforce
  also have "\<dots> \<subseteq> set s" using set_dropWhileD by fastforce
  finally show ?thesis .
qed

lemma dropWhile_rev_prefix:
  "\<exists>zs. xs = rev (dropWhile P (rev xs)) @ zs \<and> (\<forall>z\<in>set zs. P z)"
proof -
  have "rev xs = takeWhile P (rev xs) @ dropWhile P (rev xs)" by simp
  then have "xs = rev (dropWhile P (rev xs)) @ rev (takeWhile P (rev xs))"
    by (metis rev_append rev_rev_ident)
  moreover have "\<forall>z\<in>set (rev (takeWhile P (rev xs))). P z"
    by (auto dest: set_takeWhileD)
  ultimately show ?thesis by blast
qed

lemma trim_head: "trim s \<noteq> [] \<Longrightarrow> \<not> isSpace (hd (trim s))"
proof -
  assume ne: "trim s \<noteq> []"
  let ?t = "dropWhile isSpace s"
  obtain zs where t: "?t = trim s @ zs"
    using dropWhile_rev_prefix [of ?t isSpace] by (auto simp: trim_def)
  with ne have "?t \<noteq> []" and "hd (trim s) = hd ?t" by auto
  then show ?thesis using hd_dropWhile [of isSpace s] by simp
qed

lemma trim_idem: "trim (trim s) = trim s"
proof (cases "trim s = []")
  case True
  have "trim [] = []" by (simp add: trim_def)
  with True show ?thesis by simp
next
  case False
  then have "dropWhile isSpace (trim s) = trim s"
    using trim_head [of s] by (cases "trim s") auto
  then have "trim (trim s) = rev (dropWhile isSpace (rev (trim s)))"
    by (simp add: trim_def)
  also have "\<dots> = trim s"
    by (simp add: trim_def)
  finally show ?thesis .
qed

lemma trim_last: "trim s \<noteq> [] \<Longrightarrow> \<not> isSpace (last (trim s))"
proof -
  assume ne: "trim s \<noteq> []"
  let ?u = "dropWhile isSpace (rev (dropWhile isSpace s))"
  from ne have u: "?u \<noteq> []" by (simp add: trim_def)
  have "last (trim s) = hd ?u"
    using u by (simp add: trim_def last_rev)
  moreover have "\<not> isSpace (hd ?u)"
    using u by (rule hd_dropWhile)
  ultimately show ?thesis by simp
qed

lemma replaceNewlines_no_newline: "CHR 0x0A \<notin> set (replaceNewlines s)"
  by (auto simp: replaceNewlines_def)




lemma isSpace_newline: "isSpace (CHR 0x0A)"
  by (simp add: isSpace_def codeUnit_def)

lemma isSpace_blank: "isSpace (CHR '' '')"
  by (simp add: isSpace_def codeUnit_def)

lemma stripSpaces_replaceNewlines: "stripSpaces (replaceNewlines s) = stripSpaces s"
  by (induction s) (auto simp: stripSpaces_def replaceNewlines_def isSpace_newline isSpace_blank)

lemma filter_dropWhile_not: "filter (\<lambda>x. \<not> P x) (dropWhile P xs) = filter (\<lambda>x. \<not> P x) xs"
  by (induction xs) auto

lemma stripSpaces_trim: "stripSpaces (trim s) = stripSpaces s"
proof -
  have "stripSpaces (trim s) = rev (stripSpaces (dropWhile isSpace (rev (dropWhile isSpace s))))"
    by (simp add: trim_def stripSpaces_def rev_filter)
  also have "\<dots> = rev (stripSpaces (rev (dropWhile isSpace s)))"
    by (simp add: stripSpaces_def filter_dropWhile_not)
  also have "\<dots> = stripSpaces (dropWhile isSpace s)"
    by (simp add: stripSpaces_def rev_filter)
  also have "\<dots> = stripSpaces s"
    by (simp add: stripSpaces_def filter_dropWhile_not)
  finally show ?thesis .
qed

lemma stripSpaces_drop:
  assumes "n \<le> length (takeWhile isSpace s)"
  shows "stripSpaces (drop n s) = stripSpaces s"
proof -
  have "take n s = take n (takeWhile isSpace s)"
    using assms by (metis append_eq_conv_conj min.absorb2 take_take takeWhile_dropWhile_id length_take order_refl)
  then have "\<forall>c\<in>set (take n s). isSpace c"
    by (metis in_set_takeD set_takeWhileD)
  then have "stripSpaces (take n s) = []"
    by (simp add: stripSpaces_def)
  moreover have "stripSpaces s = stripSpaces (take n s) @ stripSpaces (drop n s)"
    by (metis append_take_drop_id filter_append stripSpaces_def)
  ultimately show ?thesis by simp
qed

lemma stripSpaces_append: "stripSpaces (xs @ ys) = stripSpaces xs @ stripSpaces ys"
  by (simp add: stripSpaces_def)

lemma splitLoop_strip:
  assumes sep: "\<And>prev s n. n \<in> set (ms r prev s) \<Longrightarrow> 0 < n \<and> n \<le> length (takeWhile isSpace s)"
  shows "stripSpaces (concat (splitLoop r prev acc s)) = stripSpaces (rev acc @ s)"
  using sep
proof (induction r prev acc s rule: splitLoop.induct)
  case (1 r prev acc)
  then show ?case by simp
next
  case (2 r prev acc c cs)
  show ?case
  proof (cases "ms r prev (c # cs)")
    case Nil
    with "2.IH"(1) "2.prems" show ?thesis by simp
  next
    case (Cons n ns)
    then have "n \<in> set (ms r prev (c # cs))" by simp
    from "2.prems" [OF this] have n: "0 < n" "n \<le> length (takeWhile isSpace (c # cs))"
      by blast+
    then have "n \<noteq> 0" by simp
    have "stripSpaces (concat (splitLoop r prev acc (c # cs)))
        = stripSpaces (rev acc) @ stripSpaces (concat (splitLoop r (prevAfter prev n (c # cs)) [] (drop n (c # cs))))"
      using Cons \<open>n \<noteq> 0\<close> by (simp add: stripSpaces_append)
    also have "\<dots> = stripSpaces (rev acc) @ stripSpaces (drop n (c # cs))"
      using "2.IH"(4) [OF Cons \<open>n \<noteq> 0\<close>] "2.prems" by simp
    also have "\<dots> = stripSpaces (rev acc) @ stripSpaces (c # cs)"
      using stripSpaces_drop [OF n(2)] by simp
    finally show ?thesis by (simp add: stripSpaces_append)
  qed
qed

lemma stripSpaces_concat_trim:
  "stripSpaces (concat (filter (\<lambda>s. s \<noteq> []) (map trim ps))) = stripSpaces (concat ps)"
proof (induction ps)
  case Nil
  then show ?case by simp
next
  case (Cons p ps)
  have "stripSpaces (concat (filter (\<lambda>s. s \<noteq> []) (map trim (p # ps))))
      = stripSpaces (trim p) @ stripSpaces (concat (filter (\<lambda>s. s \<noteq> []) (map trim ps)))"
    by (cases "trim p = []") (simp_all add: stripSpaces_append stripSpaces_def)
  then show ?case
    using Cons.IH by (simp add: stripSpaces_append stripSpaces_trim)
qed

lemma stripSpaces_splitSentences:
  "stripSpaces (concat (splitSentences t)) = stripSpaces (replaceNewlines t)"
proof (cases "replaceNewlines t = []")
  case True
  then show ?thesis
    by (simp add: splitSentences_def split_def stripSpaces_def trim_def)
next
  case False
  then show ?thesis
    using splitLoop_strip [of sentenceBoundary None "[]" "replaceNewlines t"] ms_sentenceBoundary
    by (simp add: splitSentences_def split_def stripSpaces_concat_trim)
qed

subsection \<open>Substrings and lower case\<close>

lemma str_includes_sublist: "str_includes s k = sublist k s"
  by (induction s) (auto simp: sublist_Cons_right)

lemma toLowerCase_append: "toLowerCase (xs @ ys) = toLowerCase xs @ toLowerCase ys"
  by (simp add: toLowerCase_def)

lemma codeUnit_inj: "codeUnit a = codeUnit b \<longleftrightarrow> a = b"
  by (simp add: codeUnit_def)

lemma codeUnit_less: "codeUnit c < 256"
  by (simp add: codeUnit_def)

lemma codeUnit_lowerChar:
  "codeUnit (lowerChar c) = (if isCapital c then codeUnit c + 32 else codeUnit c)"
proof (cases "isCapital c")
  case True
  then have "codeUnit c + 32 < 256"
    by (auto simp: isCapital_def)
  then have "codeUnit (char_of (codeUnit c + 32)) = codeUnit c + 32"
    by (simp add: codeUnit_def)
  with True show ?thesis
    by (simp add: lowerChar_def isCapital_def)
next
  case False
  then have "lowerChar c = c"
    unfolding lowerChar_def isCapital_def by (rule if_not_P)
  with False show ?thesis by simp
qed

lemma sameLetter_lower: "sameLetter a b \<longleftrightarrow> lowerChar a = lowerChar b"
proof -
  have "lowerChar a = lowerChar b \<longleftrightarrow> codeUnit (lowerChar a) = codeUnit (lowerChar b)"
    by (simp only: codeUnit_inj)
  also have "\<dots> \<longleftrightarrow> sameLetter a b"
    unfolding codeUnit_lowerChar sameLetter_def
    using codeUnit_inj [of a b]
    by (auto simp: isCapital_def)
  finally show ?thesis by simp
qed

lemma ciPrefix_lower: "ciPrefix k s \<longleftrightarrow> prefix (toLowerCase k) (toLowerCase s)"
  by (induction k s rule: ciPrefix.induct) (auto simp: toLowerCase_def sameLetter_lower)

lemma ciSubstring_lower: "ciSubstring k s \<longleftrightarrow> sublist (toLowerCase k) (toLowerCase s)"
proof (induction s)
  case Nil
  then show ?case by (simp add: toLowerCase_def)
next
  case (Cons c cs)
  have "sublist (toLowerCase k) (toLowerCase (c # cs))
          \<longleftrightarrow> prefix (toLowerCase k) (toLowerCase (c # cs))
               \<or> sublist (toLowerCase k) (toLowerCase cs)"
    by (simp add: toLowerCase_def sublist_Cons_right)
  with Cons show ?case
    by (simp add: ciPrefix_lower)
qed

lemma ciPrefix_iff:
  "ciPrefix k s \<longleftrightarrow> (\<exists>w. prefix w s \<and> list_all2 sameLetter k w)"
proof (induction k s rule: ciPrefix.induct)
  case (1 s)
  then show ?case by auto
next
  case (2 k ks)
  then show ?case by (auto simp: list_all2_Cons1)
next
  case (3 k ks c cs)
  show ?case
  proof
    assume "ciPrefix (k # ks) (c # cs)"
    with 3 obtain w where "prefix w cs" "list_all2 sameLetter ks w" "sameLetter k c"
      by auto
    then have "prefix (c # w) (c # cs) \<and> list_all2 sameLetter (k # ks) (c # w)"
      by simp
    then show "\<exists>w. prefix w (c # cs) \<and> list_all2 sameLetter (k # ks) w"
      by blast
  next
    assume "\<exists>w. prefix w (c # cs) \<and> list_all2 sameLetter (k # ks) w"
    then obtain w where w: "prefix w (c # cs)" "list_all2 sameLetter (k # ks) w"
      by blast
    then obtain w' where "w = c # w'" "prefix w' cs" "sameLetter k c" "list_all2 sameLetter ks w'"
      by (cases w) (auto simp: list_all2_Cons1)
    with 3 show "ciPrefix (k # ks) (c # cs)"
      by auto
  qed
qed

lemma ciSubstring_iff:
  "ciSubstring k s \<longleftrightarrow> (\<exists>w. sublist w s \<and> list_all2 sameLetter k w)"
proof (induction s)
  case Nil
  then show ?case by (auto simp: list_all2_Nil2)
next
  case (Cons c cs)
  have "(\<exists>w. sublist w (c # cs) \<and> list_all2 sameLetter k w)
          \<longleftrightarrow> (\<exists>w. prefix w (c # cs) \<and> list_all2 sameLetter k w)
               \<or> (\<exists>w. sublist w cs \<and> list_all2 sameLetter k w)"
    by (auto simp: sublist_Cons_right)
  with Cons show ?case
    by (simp add: ciPrefix_iff)
qed

lemma riskKeywords_all_lower: "list_all (\<lambda>k. toLowerCase k = k) riskKeywords"
  by code_simp

lemma riskKeywords_lower: "k \<in> set riskKeywords \<Longrightarrow> toLowerCase k = k"
  using riskKeywords_all_lower by (simp add: list_all_iff)

lemma risky_iff:
  "list_ex (\<lambda>k. str_includes (toLowerCase s) k) riskKeywords
     \<longleftrightarrow> (\<exists>k\<in>set riskKeywords. ciSubstring k s)"
  by (auto simp: list_ex_iff str_includes_sublist ciSubstring_lower riskKeywords_lower)

subsection \<open>The empty document\<close>

lemma splitSentences_Nil: "splitSentences [] = []"
  by (simp add: splitSentences_def replaceNewlines_def split_def ms_sentenceBoundary_Nil trim_def)

lemma heuristicsSummary_Nil: "heuristicsSummary [] k = []"
  by (simp add: heuristicsSummary_def splitSentences_Nil)

subsection \<open>Scores and the summary\<close>

lemma fold_keywords:
  "fold (\<lambda>k sc. if P k then sc + 3 else sc) ks (a::rat) = a + 3 * of_nat (length (filter P ks))"
  by (induction ks arbitrary: a) (auto simp: algebra_simps)

lemma scoreSentence_eq:
  "scoreSentence n (i, s) =
     \<lparr>sent = s,
      score = 3 * of_nat (length (filter (str_includes (toLowerCase s)) keywordList))
              + (if 120 < length s then 1 else 0) + (if 250 < length s then 1 else 0)
              + max 0 (1 - of_nat i / of_nat (max 1 n)),
      idx = i\<rparr>"
  by (simp add: scoreSentence_def Let_def fold_keywords)

lemma heuristicsSummary_eq:
  assumes "splitSentences t = sents" and "sents \<noteq> []" and "0 \<le> k"
  shows "heuristicsSummary t k =
           map (\<lambda>x. annotate (sent x))
             (take (nat k) (sortBy (\<lambda>a b. score b - score a)
                (map (scoreSentence (length sents)) (enumerate 0 sents))))"
proof -
  let ?ranked = "sortBy (\<lambda>a b. score b - score a) (map (scoreSentence (length sents)) (enumerate 0 sents))"
  have len: "length ?ranked = length sents"
    by (simp add: length_sortBy)
  have "slice0 (min k (int (length ?ranked))) ?ranked = take (nat k) ?ranked"
    using assms(3) len by (simp add: slice0_def min_def)
  then show ?thesis
    using assms(1,2) len by (simp add: heuristicsSummary_def Let_def)
qed

subsection \<open>The ranking\<close>

lemma keywordList_distinct: "distinct keywordList"
  by (simp add: keywordList_def)

lemma keywordList_all_lower: "list_all (\<lambda>k. toLowerCase k = k) keywordList"
  by code_simp

lemma keywordList_lower: "k \<in> set keywordList \<Longrightarrow> toLowerCase k = k"
  using keywordList_all_lower by (simp add: list_all_iff)

lemma keyword_count:
  "length (filter (str_includes (toLowerCase s)) keywordList)
     = length (filter (\<lambda>k. ciSubstring k s) (remdups keywordList))"
proof -
  have "filter (str_includes (toLowerCase s)) keywordList = filter (\<lambda>k. ciSubstring k s) keywordList"
    by (rule filter_cong) (simp_all add: str_includes_sublist ciSubstring_lower keywordList_lower)
  then show ?thesis
    by (simp add: distinct_remdups_id keywordList_distinct)
qed

lemma scoreSentence_spec:
  "scoreSentence n (i, s) = \<lparr>sent = s, score = specScore n i s, idx = i\<rparr>"
  by (simp add: scoreSentence_eq specScore_def keyword_count)

lemma mset_insertBy: "mset (insertBy cmp x xs) = add_mset x (mset xs)"
  by (induction xs) auto

lemma mset_sortBy: "mset (sortBy cmp xs) = mset xs"
  by (induction xs) (auto simp: sortBy_def mset_insertBy)

lemma set_insertBy: "set (insertBy cmp x xs) = insert x (set xs)"
  by (induction xs) auto


lemma sorted_insertBy:
  "sorted_wrt (\<lambda>a b. f a \<ge> f b) xs
     \<Longrightarrow> sorted_wrt (\<lambda>a b. f a \<ge> f b) (insertBy (\<lambda>a b. f b - f a) x xs)"
  by (induction xs) (auto simp: set_insertBy)

lemma sorted_sortBy: "sorted_wrt (\<lambda>a b. f a \<ge> f b) (sortBy (\<lambda>a b. f b - f a) xs)"
  by (induction xs) (auto simp: sortBy_def sorted_insertBy)

lemma bonus_inj:
  assumes "i < n" and "j < n"
    and eq: "(of_nat a :: rat) + (1 - of_nat i / of_nat n) = of_nat b + (1 - of_nat j / of_nat n)"
  shows "i = j"
proof -
  have n: "(of_nat n :: rat) \<noteq> 0" using assms(1) by simp
  from eq have "(of_nat a :: rat) * of_nat n + of_nat j = of_nat b * of_nat n + of_nat i"
    using n by (simp add: field_simps)
  then have "(of_nat (a * n + j) :: rat) = of_nat (b * n + i)"
    by simp
  then have m: "a * n + j = b * n + i"
    using of_nat_eq_iff by blast
  then have "(a * n + j) mod n = (b * n + i) mod n" by simp
  then show ?thesis using assms(1,2) by simp
qed


lemma score_shape:
  assumes "i < n"
  shows "\<exists>a::nat. score (scoreSentence n (i, s)) = of_nat a + (1 - of_nat i / of_nat n)"
proof -
  let ?a = "3 * length (filter (str_includes (toLowerCase s)) keywordList)
            + (if 120 < length s then 1 else 0) + (if 250 < length s then 1 else 0)"
  have "(of_nat i :: rat) / of_nat n \<le> 1"
    using assms by simp
  then have "max 0 (1 - (of_nat i :: rat) / of_nat (max 1 n)) = 1 - of_nat i / of_nat n"
    using assms by (simp add: max_def)
  then have "score (scoreSentence n (i, s)) = of_nat ?a + (1 - of_nat i / of_nat n)"
    by (simp add: scoreSentence_eq)
  then show ?thesis by blast
qed

lemma scores_distinct:
  "distinct (map score (map (scoreSentence (length sents)) (enumerate 0 sents)))"
proof -
  let ?n = "length sents"
  let ?xs = "map score (map (scoreSentence ?n) (enumerate 0 sents))"
  have nth: "?xs ! i = score (scoreSentence ?n (i, sents ! i))" if "i < ?n" for i
    using that by (simp add: nth_enumerate_eq)
  have "?xs ! i \<noteq> ?xs ! j" if ij: "i < ?n" "j < ?n" "i \<noteq> j" for i j
  proof
    assume eq: "?xs ! i = ?xs ! j"
    obtain a :: nat where a: "?xs ! i = of_nat a + (1 - of_nat i / of_nat ?n)"
      using score_shape [OF ij(1)] nth [OF ij(1)] by metis
    obtain b :: nat where b: "?xs ! j = of_nat b + (1 - of_nat j / of_nat ?n)"
      using score_shape [OF ij(2)] nth [OF ij(2)] by metis
    from eq a b have "(of_nat a :: rat) + (1 - of_nat i / of_nat ?n) = of_nat b + (1 - of_nat j / of_nat ?n)"
      by simp
    from bonus_inj [OF ij(1,2) this] ij(3) show False by simp
  qed
  then show ?thesis
    by (simp add: distinct_conv_nth del: map_map)
qed

lemma ranking_strict:
  "sorted_wrt (\<lambda>a b. score a > score b)
     (sortBy (\<lambda>a b. score b - score a) (map (scoreSentence (length sents)) (enumerate 0 sents)))"
proof -
  let ?scored = "map (scoreSentence (length sents)) (enumerate 0 sents)"
  let ?ranked = "sortBy (\<lambda>a b. score b - score a) ?scored"
  have "mset (map score ?ranked) = mset (map score ?scored)"
    by (simp add: mset_sortBy del: map_map)
  then have d: "distinct (map score ?ranked)"
    using scores_distinct [of sents] by (metis mset_eq_imp_distinct_iff)
  have s: "sorted_wrt (\<lambda>a b. score a \<ge> score b) ?ranked"
    by (rule sorted_sortBy)
  have "sorted_wrt (\<lambda>a b. score a > score b) xs"
    if "sorted_wrt (\<lambda>a b. score a \<ge> score b) xs" "distinct (map score xs)"
    for xs :: "scoredSentence list"
    using that
  proof (induction xs)
    case Nil
    then show ?case by simp
  next
    case (Cons x xs)
    have "score y < score x" if "y \<in> set xs" for y
    proof -
      from Cons.prems(1) that have "score y \<le> score x" by auto
      moreover from Cons.prems(2) have "score x \<notin> score ` set xs" by simp
      with that have "score y \<noteq> score x" by (metis imageI)
      ultimately show ?thesis by simp
    qed
    with Cons show ?case by simp
  qed
  from this [OF s d] show ?thesis .
qed

subsection \<open>Evaluating regular expressions\<close>

text \<open>
  The sequence evaluated by need: the second expression is only looked at after a match of
  the first.
\<close>

lemma ms_Seq_case:
  "ms (Seq a b) prev s =
     (case ms a prev s of
        [] \<Rightarrow> []
      | n # ns \<Rightarrow> map (\<lambda>m. n + m) (ms b (prevAfter prev n s) (drop n s))
                 @ concat (map (\<lambda>n. map (\<lambda>m. n + m) (ms b (prevAfter prev n s) (drop n s))) ns))"
  by (simp split: list.splits)

lemmas regex_eval =
  ms_Seq_case reExec_def reTest_def replaceFn_def prevAfter_def
  canonicalize_def lowerChar_def toLowerCase_def codeUnit_def char_of_def bit_Suc_0_iff
  isSpace_def isTerminal_def isOpener_def

subsection \<open>The examples of the specification\<close>

lemma annotate_unfold:
  "annotate s =
     applyRule (LitI ''termination'', ''ending the agreement'')
    (applyRule (Seq (LitI ''confidential'') (Opt (LitI ''ity'')), ''kept private'')
    (applyRule (Seq (LitI ''liabilit'') (Alt (LitI ''y'') (LitI ''ies'')),
                ''legal responsibility for harm'')
    (applyRule (LitI ''notwithstanding'', ''despite the above'')
    (applyRule (Seq (LitI ''jurisdicti'') (Alt (LitI ''on'') (LitI ''onal'')),
                ''which court'' @ [CHR 0x27] @ ''s rules apply'')
    (applyRule (LitI ''waiver'', ''giving up a right intentionally'')
    (applyRule (Seq (LitI ''indemnif'') (Alt (LitI ''y'') (Alt (LitI ''ies'') (LitI ''ication''))),
                ''compensation if someone sues you'')
    (applyRule (Seq (LitI ''force'') (Seq (Plus Space) (LitI ''majeure'')),
                ''unavoidable events (e.g., natural disaster)'') s)))))))"
  by (simp add: annotate_def LEGAL_MAP_def)

lemma example_count0:
  "length (filter (str_includes (toLowerCase ''A shall indemnify B.'')) keywordList) = 2"
  by code_simp

lemma example_count1:
  "length (filter (str_includes (toLowerCase ''This is short.'')) keywordList) = 0"
  by code_simp

lemma example_annotate:
  "annotate ''A shall indemnify B.'' = ''A shall indemnify (compensation if someone sues you) B.''"
proof -
  let ?s = "''A shall indemnify B.''"
  let ?o = "''A shall indemnify (compensation if someone sues you) B.''"
  have 1: "applyRule (Seq (LitI ''force'') (Seq (Plus Space) (LitI ''majeure'')),
                ''unavoidable events (e.g., natural disaster)'') ?s = ?s"
    by (simp add: applyRule_def regex_eval del: ms.simps(3))
  have 2: "applyRule (Seq (LitI ''indemnif'') (Alt (LitI ''y'') (Alt (LitI ''ies'') (LitI ''ication''))),
                ''compensation if someone sues you'') ?s = ?o"
    by (simp add: applyRule_def regex_eval del: ms.simps(3))
  have 3: "applyRule (LitI ''waiver'', ''giving up a right intentionally'') ?o = ?o"
    by (simp add: applyRule_def regex_eval del: ms.simps(3))
  have 4: "applyRule (Seq (LitI ''jurisdicti'') (Alt (LitI ''on'') (LitI ''onal'')),
                ''which court'' @ [CHR 0x27] @ ''s rules apply'') ?o = ?o"
    by (simp add: applyRule_def regex_eval del: ms.simps(3))
  have 5: "applyRule (LitI ''notwithstanding'', ''despite the above'') ?o = ?o"
    by (simp add: applyRule_def regex_eval del: ms.simps(3))
  have 6: "applyRule (Seq (LitI ''liabilit'') (Alt (LitI ''y'') (LitI ''ies'')),
                ''legal responsibility for harm'') ?o = ?o"
    by (simp add: applyRule_def regex_eval del: ms.simps(3))
  have 7: "applyRule (Seq (LitI ''confidential'') (Opt (LitI ''ity'')), ''kept private'') ?o = ?o"
    by (simp add: applyRule_def regex_eval del: ms.simps(3))
  have 8: "applyRule (LitI ''termination'', ''ending the agreement'') ?o = ?o"
    by (simp add: applyRule_def regex_eval del: ms.simps(3))
  show ?thesis
    by (simp only: annotate_unfold 1 2 3 4 5 6 7 8)
qed

lemma fee_sentences:
  "splitSentences ''No fee is mentioned here. The weather is nice.'' =
     [''No fee is mentioned here.'', ''The weather is nice.'']"
  by code_simp

lemma fee_question:
  "toLowerCase ''what is the fee?'' = ''what is the fee?''"
  by (simp add: regex_eval)

lemma fee_match:
  "reTest (Alt (LitI ''payment'') (Alt (LitI ''fee'') (LitI ''price''))) ''No fee is mentioned here.''"
  by (simp add: regex_eval del: ms.simps(3))

lemma fee_no_match:
  "\<not> reTest (Alt (LitI ''payment'') (Alt (LitI ''fee'') (LitI ''price''))) ''The weather is nice.''"
  by (simp add: regex_eval del: ms.simps(3))

lemma fee_not_blank: "trim ''what is the fee?'' \<noteq> []"
  by (simp add: trim_def regex_eval)

lemma padded_sentences:
  "splitSentences ''  Hello world.  Next one.  '' = [''Hello world.'', ''Next one.'']"
  by code_simp

lemma capitals_sentences:
  "splitSentences ''A SHALL Indemnify B. This is short.'' =
     [''A SHALL Indemnify B.'', ''This is short.'']"
  by code_simp

lemma capitals_count:
  "length (filter (str_includes (toLowerCase ''A SHALL Indemnify B.'')) keywordList) = 2"
  by code_simp

lemma capitals_risks:
  "risks ''PENALTY applies. This is short.'' = [''PENALTY applies.'']"
  by code_simp

lemma example_risks:
  "risks ''A shall indemnify B. This is short.'' = [''A shall indemnify B.'']"
  by code_simp

lemma blank_sentences: "splitSentences '' '' = []"
  by code_simp

subsection \<open>The glossary\<close>















subsection \<open>The explanation after the first match\<close>

























section \<open>The length of the summary\<close>

text \<open>
  C1. For every text and every \<open>k\<close> from 1 to 10, \<open>heuristicsSummary text k\<close> has exactly
  \<open>min k n\<close> elements, \<open>n\<close> being the number of sentences of \<open>splitSentences text\<close>.
\<close>

theorem summary_length:
  assumes "1 \<le> k" and "k \<le> 10"
  shows "length (heuristicsSummary text k) = min (nat k) (length (splitSentences text))"
proof (cases "splitSentences text = []")
  case True
  then show ?thesis by (simp add: heuristicsSummary_def)
next
  case False
  have "0 \<le> min k (int (length (splitSentences text)))"
    using assms by simp
  then show ?thesis
    using False assms
    by (simp add: heuristicsSummary_def Let_def length_slice0 length_sortBy)
qed

theorem summary_length_witness:
  "(1::int) \<le> 1 \<and> (1::int) \<le> 10
   \<and> length (heuristicsSummary ''A shall indemnify B. This is short.'' 1) = 1"
  using summary_length [of 1 "''A shall indemnify B. This is short.''"]
  by (simp add: splitSentences_example)

section \<open>Scores and ranking\<close>

text \<open>
  C2. The sentence at index \<open>i\<close> among \<open>n\<close> gets the score of the specification
  (\<open>specScore\<close>, computed exactly, with the keywords found up to case); the scored
  sentences are then put in descending order of score, and the summary is made of the first
  \<open>maxPoints\<close> of them.
\<close>

theorem summary_ranking:
  assumes "i < length (splitSentences t)" and "1 \<le> k" and "k \<le> 10"
  shows "let sents = splitSentences t;
             scored = map (scoreSentence (length sents)) (enumerate 0 sents);
             ranked = sortBy (\<lambda>a b. score b - score a) scored
         in scored ! i = \<lparr>sent = sents ! i, score = specScore (length sents) i (sents ! i), idx = i\<rparr>
            \<and> mset ranked = mset scored
            \<and> sorted_wrt (\<lambda>a b. score a \<ge> score b) ranked
            \<and> heuristicsSummary t k = map (\<lambda>x. annotate (sent x)) (take (nat k) ranked)"
proof -
  let ?sents = "splitSentences t"
  have ne: "?sents \<noteq> []" using assms(1) by auto
  have "map (scoreSentence (length ?sents)) (enumerate 0 ?sents) ! i
      = \<lparr>sent = ?sents ! i, score = specScore (length ?sents) i (?sents ! i), idx = i\<rparr>"
    using assms(1) by (simp add: nth_enumerate_eq scoreSentence_spec)
  moreover have "heuristicsSummary t k =
      map (\<lambda>x. annotate (sent x))
        (take (nat k) (sortBy (\<lambda>a b. score b - score a)
           (map (scoreSentence (length ?sents)) (enumerate 0 ?sents))))"
    using heuristicsSummary_eq [OF refl ne] assms(2) by simp
  ultimately show ?thesis
    by (simp add: Let_def mset_sortBy sorted_sortBy)
qed

theorem summary_ranking_witness:
  "(0::nat) < length (splitSentences ''A SHALL Indemnify B. This is short.'')
   \<and> (1::int) \<le> 1 \<and> (1::int) \<le> 10
   \<and> filter (\<lambda>k. ciSubstring k ''A SHALL Indemnify B.'') (remdups keywordList)
       = [''shall'', ''indemnify'']
   \<and> specScore 2 0 ''A SHALL Indemnify B.'' = 7
   \<and> score (scoreSentence 2 (0, ''A SHALL Indemnify B.'')) = 7"
proof -
  let ?t = "''A SHALL Indemnify B. This is short.''"
  have h: "0 < length (splitSentences ?t)"
    by (simp add: capitals_sentences)
  have "1 \<le> (1::int)" and "(1::int) \<le> 10"
    by simp_all
  from summary_ranking [OF h this]
  have "score (scoreSentence 2 (0, ''A SHALL Indemnify B.'')) = specScore 2 0 ''A SHALL Indemnify B.''"
    by (simp add: Let_def capitals_sentences numeral_2_eq_2)
  moreover have "score (scoreSentence 2 (0, ''A SHALL Indemnify B.'')) = 7"
    by (simp add: scoreSentence_eq capitals_count)
  moreover have "filter (\<lambda>k. ciSubstring k ''A SHALL Indemnify B.'') (remdups keywordList)
       = [''shall'', ''indemnify'']"
    by (simp add: keywordList_def sameLetter_def isCapital_def codeUnit_def)
  ultimately show ?thesis using h by simp
qed

section \<open>The sentences of a document\<close>

text \<open>
  C9. Every element of \<open>splitSentences text\<close> is a non-empty string, is its own trimmed
  form, with a first and a last code unit that are not white space (TAB, LF, VT, FF, CR,
  SP, NBSP), and contains no line feed.
\<close>

theorem sentences_trimmed:
  "\<forall>s \<in> set (splitSentences text).
     s \<noteq> [] \<and> trim s = s
     \<and> codeUnit (hd s) \<notin> {9, 10, 11, 12, 13, 32, 160}
     \<and> codeUnit (last s) \<notin> {9, 10, 11, 12, 13, 32, 160}
     \<and> CHR 0x0A \<notin> set s"
proof
  fix s assume "s \<in> set (splitSentences text)"
  then obtain p where p: "p \<in> set (split sentenceBoundary (replaceNewlines text))"
    and s: "s = trim p" and ne: "s \<noteq> []"
    by (auto simp: splitSentences_def)
  have "set s \<subseteq> set (replaceNewlines text)"
    using set_trim [of p] split_set [OF p] s by blast
  then have nl: "CHR 0x0A \<notin> set s"
    using replaceNewlines_no_newline [of "text"] by blast
  have "\<not> isSpace (hd s)" and "\<not> isSpace (last s)"
    using trim_head [of p] trim_last [of p] s ne by simp_all
  then have "codeUnit (hd s) \<notin> {9, 10, 11, 12, 13, 32, 160}"
    and "codeUnit (last s) \<notin> {9, 10, 11, 12, 13, 32, 160}"
    by (simp_all only: isSpace_def not_False_eq_True)
  with s ne nl
  show "s \<noteq> [] \<and> trim s = s
     \<and> codeUnit (hd s) \<notin> {9, 10, 11, 12, 13, 32, 160}
     \<and> codeUnit (last s) \<notin> {9, 10, 11, 12, 13, 32, 160}
     \<and> CHR 0x0A \<notin> set s"
    by (simp only: trim_idem) simp
qed

theorem sentences_trimmed_witness:
  "''Next one.'' \<in> set (splitSentences ''  Hello world.  Next one.  '')
   \<and> ''Next one.'' \<noteq> [] \<and> trim ''Next one.'' = ''Next one.''
   \<and> codeUnit (hd ''Next one.'') \<notin> {9, 10, 11, 12, 13, 32, 160}
   \<and> codeUnit (last ''Next one.'') \<notin> {9, 10, 11, 12, 13, 32, 160}
   \<and> CHR 0x0A \<notin> set ''Next one.''"
proof -
  have "''Next one.'' \<in> set (splitSentences ''  Hello world.  Next one.  '')"
    by (simp add: padded_sentences)
  then show ?thesis
    using sentences_trimmed [of "''  Hello world.  Next one.  ''"] by blast
qed

section \<open>The risk list\<close>

text \<open>
  C6. \<open>risks text\<close> has at most 6 elements; the risk keywords are indemnify, liability,
  penalt, breach, terminate and obligation; each element of \<open>risks text\<close> contains one of
  them as a case-insensitive substring, and the elements are the first (at most) six
  sentences of the document that do, in the order of the document.
\<close>

theorem risks_spec:
  "length (risks t) \<le> 6
   \<and> riskKeywords =
       [''indemnify'', ''liability'', ''penalt'', ''breach'', ''terminate'', ''obligation'']
   \<and> (\<forall>s\<in>set (risks t). \<exists>k\<in>set riskKeywords. ciSubstring k s)
   \<and> risks t = take 6 (filter (\<lambda>s. \<exists>k\<in>set riskKeywords. ciSubstring k s) (splitSentences t))"
proof -
  have eq: "risks t = take 6 (filter (\<lambda>s. \<exists>k\<in>set riskKeywords. ciSubstring k s) (splitSentences t))"
    by (simp add: risks_def slice0_def risky_iff)
  have "\<forall>s\<in>set (risks t). \<exists>k\<in>set riskKeywords. ciSubstring k s"
    unfolding eq by (auto dest: in_set_takeD)
  moreover have "length (risks t) \<le> 6"
    unfolding eq by simp
  moreover have "riskKeywords =
       [''indemnify'', ''liability'', ''penalt'', ''breach'', ''terminate'', ''obligation'']"
    by (simp add: riskKeywords_def)
  ultimately show ?thesis using eq by blast
qed

theorem risks_spec_witness:
  "''PENALTY applies.'' \<in> set (risks ''PENALTY applies. This is short.'')
   \<and> length (risks ''PENALTY applies. This is short.'') \<le> 6
   \<and> ciSubstring ''penalt'' ''PENALTY applies.''
   \<and> \<not> ciSubstring ''penalt'' ''This is short.''
   \<and> (\<exists>k\<in>set riskKeywords. ciSubstring k ''PENALTY applies.'')
   \<and> risks ''PENALTY applies. This is short.''
       = take 6 (filter (\<lambda>s. \<exists>k\<in>set riskKeywords. ciSubstring k s)
                        (splitSentences ''PENALTY applies. This is short.''))"
proof -
  have "''PENALTY applies.'' \<in> set (risks ''PENALTY applies. This is short.'')"
    by (simp add: capitals_risks)
  moreover have "ciSubstring ''penalt'' ''PENALTY applies.''"
    by (simp add: sameLetter_def isCapital_def codeUnit_def)
  moreover have "\<not> ciSubstring ''penalt'' ''This is short.''"
    by (simp add: sameLetter_def isCapital_def codeUnit_def)
  ultimately show ?thesis
    using risks_spec [of "''PENALTY applies. This is short.''"] by blast
qed

section \<open>The answer to a question about termination\<close>

text \<open>
  C10. When the lower-case form of the question contains \<open>terminate\<close>, the answer is the
  same for every two summaries: it depends on the question and on the document only.
\<close>

theorem terminate_ignores_summary:
  assumes "str_includes (toLowerCase q) ''terminate''"
  shows "simpleChatAnswer q t s1 = simpleChatAnswer q t s2"
proof (cases "trim (toLowerCase q) = []")
  case True
  then show ?thesis
    by (simp add: simpleChatAnswer_def Let_def)
next
  case False
  let ?found = "filter (reTest (LitI ''terminate'')) (splitSentences t)"
  have "simpleChatAnswer q t s =
          orElse (join '' '' (slice0 3 ?found)) ''No explicit termination clause found.''"
    for s
    using assms False by (simp add: simpleChatAnswer_def Let_def)
  then show ?thesis by simp
qed

theorem terminate_ignores_summary_witness:
  "str_includes (toLowerCase ''May I terminate?'') ''terminate''
   \<and> simpleChatAnswer ''May I terminate?'' ''Either party may terminate.'' []
       = simpleChatAnswer ''May I terminate?'' ''Either party may terminate.'' [''x'']"
proof -
  have h: "str_includes (toLowerCase ''May I terminate?'') ''terminate''"
    by (simp add: regex_eval)
  show ?thesis
    using h terminate_ignores_summary [OF h, of "''Either party may terminate.''" "[]" "[''x'']"]
    by blast
qed

section \<open>What the sentences cover\<close>

text \<open>
  C5, as the code has it. A text with a code unit that is not white space has at least one
  sentence; and for every text, the sentences put one after the other are the text with
  its line feeds replaced by spaces, up to white space: both are the same once all white
  space is removed.
\<close>

theorem sentences_cover:
  "((\<exists>c\<in>set t. \<not> isSpace c) \<longrightarrow> splitSentences t \<noteq> [])
   \<and> stripSpaces (concat (splitSentences t)) = stripSpaces (replaceNewlines t)"
proof
  have 2: "stripSpaces (concat (splitSentences t)) = stripSpaces (replaceNewlines t)"
    by (rule stripSpaces_splitSentences)
  show "(\<exists>c\<in>set t. \<not> isSpace c) \<longrightarrow> splitSentences t \<noteq> []"
  proof
    assume "\<exists>c\<in>set t. \<not> isSpace c"
    then have "stripSpaces t \<noteq> []"
      by (auto simp: stripSpaces_def filter_empty_conv)
    then have "stripSpaces (concat (splitSentences t)) \<noteq> []"
      by (simp add: 2 stripSpaces_replaceNewlines)
    then show "splitSentences t \<noteq> []"
      by (auto simp: stripSpaces_def)
  qed
  show "stripSpaces (concat (splitSentences t)) = stripSpaces (replaceNewlines t)"
    by (rule 2)
qed

theorem sentences_cover_witness:
  "(\<exists>c\<in>set ''A shall indemnify B. This is short.''. \<not> isSpace c)
   \<and> splitSentences ''A shall indemnify B. This is short.'' \<noteq> []
   \<and> stripSpaces (concat (splitSentences ''A shall indemnify B. This is short.''))
       = ''AshallindemnifyB.Thisisshort.''"
proof -
  have h: "\<exists>c\<in>set ''A shall indemnify B. This is short.''. \<not> isSpace c"
    by (simp add: isSpace_def codeUnit_def)
  have "stripSpaces (replaceNewlines ''A shall indemnify B. This is short.'')
      = ''AshallindemnifyB.Thisisshort.''"
    by (simp add: stripSpaces_def replaceNewlines_def isSpace_def codeUnit_def)
  then show ?thesis
    using h sentences_cover [of "''A shall indemnify B. This is short.''"] by simp
qed

text \<open>
  C5, as the specification states it, fails: the text of one space is not empty and has no
  sentence.
\<close>

theorem sentences_cover_counterexample:
  "'' '' \<noteq> [] \<and> splitSentences '' '' = []"
  by (simp add: blank_sentences)

section \<open>The empty document\<close>

text \<open>
  C8, as the code has it. For the empty document the summary and the risk list are empty;
  with the empty document and its summary, a question that is blank (empty, or white space
  only) gets the fixed prompt and every other question gets one of the three fixed
  fallback messages. The functions of the model are total: none of them has an error among
  its results.
\<close>

theorem empty_document:
  "heuristicsSummary [] k = []
   \<and> risks [] = []
   \<and> (trim (toLowerCase q) = [] \<longrightarrow>
        simpleChatAnswer q [] (heuristicsSummary [] k)
          = ''Please ask a question about the uploaded document.'')
   \<and> (trim (toLowerCase q) \<noteq> [] \<longrightarrow>
        simpleChatAnswer q [] (heuristicsSummary [] k) \<in> set fallbackMessages)"
  by (simp add: heuristicsSummary_Nil risks_def splitSentences_Nil slice0_def
      simpleChatAnswer_def Let_def orElse_def fallbackMessages_def)

theorem empty_document_witness:
  "trim (toLowerCase '' '') = []
   \<and> simpleChatAnswer '' '' [] (heuristicsSummary [] 5)
       = ''Please ask a question about the uploaded document.''
   \<and> trim (toLowerCase ''Why?'') \<noteq> []
   \<and> simpleChatAnswer ''Why?'' [] (heuristicsSummary [] 5) \<in> set fallbackMessages"
proof -
  have 1: "trim (toLowerCase '' '') = []"
    by (simp add: trim_def regex_eval)
  have 2: "trim (toLowerCase ''Why?'') \<noteq> []"
    by (simp add: trim_def regex_eval)
  show ?thesis
    using 1 2 empty_document [of 5 "'' ''"] empty_document [of 5 "''Why?''"] by blast
qed

text \<open>
  C8, as the specification states it, fails twice: a question of one space is not empty and
  gets the prompt, which is none of the fallback messages; and with the empty document and
  a summary that is not empty, the answer is taken from the summary.
\<close>

theorem empty_document_counterexample:
  "'' '' \<noteq> []
   \<and> simpleChatAnswer '' '' [] [] = ''Please ask a question about the uploaded document.''
   \<and> ''Please ask a question about the uploaded document.'' \<notin> set fallbackMessages
   \<and> ''Why?'' \<noteq> []
   \<and> simpleChatAnswer ''Why?'' [] [''x''] = ''x''
   \<and> ''x'' \<notin> set fallbackMessages"
proof -
  have 1: "trim (toLowerCase '' '') = []"
    by (simp add: trim_def regex_eval)
  have 2: "trim (toLowerCase ''Why?'') \<noteq> []"
    by (simp add: trim_def regex_eval)
  have 3: "toLowerCase ''Why?'' = ''why?''"
    by (simp add: regex_eval)
  have "simpleChatAnswer '' '' [] [] = ''Please ask a question about the uploaded document.''"
    using 1 by (simp add: simpleChatAnswer_def Let_def)
  moreover have "simpleChatAnswer ''Why?'' [] [''x''] = ''x''"
    unfolding simpleChatAnswer_def Let_def 3
    using 2 [unfolded 3] by (simp add: slice0_def)
  ultimately show ?thesis
    by (simp add: fallbackMessages_def)
qed

section \<open>The examples\<close>

text \<open>
  C7. For the document \<open>A shall indemnify B. This is short.\<close> and one point, the summary
  is exactly the sentence with \<open>indemnify\<close>, annotated with
  \<open>(compensation if someone sues you)\<close>.
\<close>

theorem indemnify_example:
  "heuristicsSummary ''A shall indemnify B. This is short.'' 1 =
     [''A shall indemnify (compensation if someone sues you) B.'']"
proof -
  have "heuristicsSummary ''A shall indemnify B. This is short.'' 1 =
     map (\<lambda>x. annotate (sent x))
       (take (nat 1) (sortBy (\<lambda>a b. score b - score a)
          (map (scoreSentence (length [''A shall indemnify B.'', ''This is short.'']))
             (enumerate 0 [''A shall indemnify B.'', ''This is short.'']))))"
    by (rule heuristicsSummary_eq [OF splitSentences_example]) simp_all
  also have "\<dots> = [annotate ''A shall indemnify B.'']"
    by (simp add: scoreSentence_eq example_count0 example_count1 sortBy_def)
  finally show ?thesis by (simp only: example_annotate)
qed

text \<open>
  C4, as the code has it. For the question \<open>what is the fee?\<close> and the document
  \<open>No fee is mentioned here. The weather is nice.\<close>, the answer is the first sentence of
  the document, which contains \<open>fee\<close>; it is not the message for a missing payment
  clause.
\<close>

theorem fee_example:
  "simpleChatAnswer ''what is the fee?'' ''No fee is mentioned here. The weather is nice.'' []
     = ''No fee is mentioned here.''"
proof -
  have "\<not> str_includes ''what is the fee?'' ''terminate''"
    and "str_includes ''what is the fee?'' ''fee''"
    by simp_all
  then show ?thesis
    unfolding simpleChatAnswer_def Let_def fee_question fee_sentences
    using fee_match fee_no_match fee_not_blank
    by (simp add: slice0_def orElse_def)
qed

text \<open>C4, as the specification states it, fails.\<close>

theorem fee_example_counterexample:
  "simpleChatAnswer ''what is the fee?'' ''No fee is mentioned here. The weather is nice.'' []
     \<noteq> ''No payment clause found.''"
proof -
  have "\<not> str_includes ''what is the fee?'' ''terminate''"
    and "str_includes ''what is the fee?'' ''fee''"
    by simp_all
  then show ?thesis
    unfolding simpleChatAnswer_def Let_def fee_question fee_sentences
    using fee_match fee_no_match fee_not_blank
    by (simp add: slice0_def orElse_def)
qed

section \<open>The glossary\<close>




end
